theory Spec2Isabelle
  imports Main "HOL-Library.AList"
begin

section \<open>JavaScript values\<close>

text \<open>
  The scraper receives parsed JSON and handles it untyped, so a payload is a
  JavaScript value. \<open>Undefined\<close> is what reading an absent property gives.
  An object is its property table; a read takes the first binding of the name.
  A number is carried as an \<open>int\<close>: the code below never computes with a payload
  number, it only tests it for zero and copies it. A string is a list of characters;
  the only pattern matched against one is ASCII.
\<close>

datatype jsval =
    Undefined
  | Null
  | Bool bool
  | Num int
  | Str string
  | Arr "jsval list"
  | Obj "(string \<times> jsval) list"

text \<open>JavaScript's \<open>ToBoolean\<close>, as \<open>!v\<close>, \<open>a || b\<close> and \<open>a && b\<close> apply it.\<close>

fun truthy :: "jsval \<Rightarrow> bool" where
  "truthy Undefined = False"
| "truthy Null = False"
| "truthy (Bool b) = b"
| "truthy (Num n) = (n \<noteq> 0)"
| "truthy (Str s) = (s \<noteq> [])"
| "truthy (Arr xs) = True"
| "truthy (Obj kvs) = True"

text \<open>
  \<open>v?.k\<close>: \<open>undefined\<close> on \<open>undefined\<close> and \<open>null\<close>, the property otherwise. None of the
  names read below is a property of a string, number, boolean or array.
\<close>

fun opt :: "jsval \<Rightarrow> string \<Rightarrow> jsval" where
  "opt (Obj kvs) k = (case map_of kvs k of Some v \<Rightarrow> v | None \<Rightarrow> Undefined)"
| "opt v k = Undefined"

definition js_or :: "jsval \<Rightarrow> jsval \<Rightarrow> jsval" where
  "js_or a b = (if truthy a then a else b)"

section \<open>Record Extractor (scraper.ts, extractPosts)\<close>

text \<open>
  A post as \<open>extractPosts\<close> builds it. The identifier and the URL are strings the
  function assembles itself; the text, the publish time and the three counters are
  copied from the payload, so they are whatever JavaScript value the payload holds
  there (the interface's \<open>string\<close> and \<open>number\<close> are not checked at run time).
\<close>

record LinkedInPost =
  id_post :: string
  text_post :: jsval
  publishedAt :: jsval
  numLikes :: jsval
  numComments :: jsval
  numShares :: jsval
  url :: string

text \<open>The value type of \<open>countsMap\<close>: numLikes, numComments, numShares.\<close>

type_synonym counts = "jsval \<times> jsval \<times> jsval"

text \<open>
  A JavaScript \<open>Map\<close> keeps its entries in insertion order; \<open>set\<close> on a key that is
  present replaces the value where it stands, \<open>set\<close> on a new key appends. That is
  \<open>AList.update\<close>. \<open>get\<close> is \<open>map_of\<close>, \<open>values()\<close> is \<open>map snd\<close>.
  The keys of \<open>countsMap\<close> are the \<open>urn\<close> values of the payload, of any type; it is
  read with string keys only, which no object or array key equals.
\<close>

definition Map_set :: "'k \<Rightarrow> 'v \<Rightarrow> ('k \<times> 'v) list \<Rightarrow> ('k \<times> 'v) list" where
  "Map_set k v m = AList.update k v m"

definition Map_has :: "('k \<times> 'v) list \<Rightarrow> 'k \<Rightarrow> bool" where
  "Map_has m k = (map_of m k \<noteq> None)"

definition Map_values :: "('k \<times> 'v) list \<Rightarrow> 'v list" where
  "Map_values m = map snd m"

text \<open>Step 1: the first loop over \<open>included\<close>, filling \<open>countsMap\<close>.\<close>

fun build_countsMap :: "jsval list \<Rightarrow> (jsval \<times> counts) list \<Rightarrow> (jsval \<times> counts) list" where
  "build_countsMap [] countsMap = countsMap"
| "build_countsMap (item # rest) countsMap =
     (if opt item ''$type'' = Str ''com.linkedin.voyager.dash.feed.SocialActivityCounts''
         \<and> truthy (opt item ''urn'')
      then build_countsMap rest
             (Map_set (opt item ''urn'')
                (js_or (opt item ''numLikes'') (Num 0),
                 js_or (opt item ''numComments'') (Num 0),
                 js_or (opt item ''numShares'') (Num 0))
                countsMap)
      else build_countsMap rest countsMap)"

text \<open>
  \<open>dashUrn.match(/activity:(\d+)/)\<close>: the leftmost position where \<open>activity:\<close> is
  followed by a digit, and the longest run of digits there.
\<close>

definition is_digit :: "char \<Rightarrow> bool" where
  "is_digit c = (c \<in> set ''0123456789'')"

fun activity_match :: "string \<Rightarrow> string option" where
  "activity_match [] = None"
| "activity_match (c # cs) =
     (let digits = takeWhile is_digit (drop 9 (c # cs))
      in if take 9 (c # cs) = ''activity:'' \<and> digits \<noteq> [] then Some digits
         else activity_match cs)"

datatype exn = TypeError

text \<open>The commentary of an item, \<open>item?.commentary?.text?.text\<close>.\<close>

definition commentary_of :: "jsval \<Rightarrow> jsval" where
  "commentary_of item = opt (opt (opt item ''commentary'') ''text'') ''text''"

text \<open>\<open>item?.preDashEntityUrn || item?.entityUrn || ""\<close>.\<close>

definition dashUrn_of :: "jsval \<Rightarrow> jsval" where
  "dashUrn_of item =
     js_or (js_or (opt item ''preDashEntityUrn'') (opt item ''entityUrn'')) (Str '''')"

text \<open>\<open>item?.actor?.subDescription?.text || ""\<close>.\<close>

definition publishedAt_of :: "jsval \<Rightarrow> jsval" where
  "publishedAt_of item =
     js_or (opt (opt (opt item ''actor'') ''subDescription'') ''text'') (Str '''')"

text \<open>
  Step 2: the second loop. \<open>match\<close> exists on strings only, so a truthy \<open>dashUrn\<close> that
  is not a string raises a \<open>TypeError\<close>; the loop stops there, with the posts pushed so far.
\<close>

fun collect_posts ::
  "(jsval \<times> counts) list \<Rightarrow> jsval list \<Rightarrow> LinkedInPost list \<Rightarrow> LinkedInPost list \<times> exn option" where
  "collect_posts countsMap [] posts = (posts, None)"
| "collect_posts countsMap (item # rest) posts =
     (let commentary = commentary_of item
      in if \<not> truthy commentary then collect_posts countsMap rest posts
         else
           (case dashUrn_of item of
              Str dashUrn \<Rightarrow>
                (case activity_match dashUrn of
                   None \<Rightarrow> collect_posts countsMap rest posts
                 | Some activityId \<Rightarrow>
                     (let activityUrn = ''urn:li:activity:'' @ activityId;
                          cnt = (case map_of countsMap (Str activityUrn) of
                                   Some c \<Rightarrow> c
                                 | None \<Rightarrow> (Num 0, Num 0, Num 0));
                          published = publishedAt_of item
                      in collect_posts countsMap rest
                           (posts @
                            [\<lparr>id_post = activityUrn,
                              text_post = commentary,
                              publishedAt = published,
                              numLikes = fst cnt,
                              numComments = fst (snd cnt),
                              numShares = snd (snd cnt),
                              url = ''https://www.linkedin.com/feed/update/'' @ activityUrn @ ''/''\<rparr>])))
            | _ \<Rightarrow> (posts, Some TypeError)))"

text \<open>
  The whole function: \<open>included\<close> must be an array; the \<open>try\<close> block holds both loops,
  its \<open>catch\<close> is empty, and \<open>return posts\<close> follows it. The result type has a place for
  an exception leaving the function.
\<close>

definition extractPosts :: "jsval \<Rightarrow> exn + LinkedInPost list" where
  "extractPosts data =
     (case opt data ''included'' of
        Arr included \<Rightarrow> Inr (fst (collect_posts (build_countsMap included []) included []))
      | _ \<Rightarrow> Inr [])"

section \<open>Accumulator (scraper.ts, the response handler of getLinkedInPosts)\<close>

text \<open>
  \<open>allPosts\<close> is a \<open>Map\<close> from identifier to post. The handler runs for a response
  from the API path whose body parsed as JSON; from the parsed payload on it is
  synchronous, so payloads are folded in one at a time. The log line calls
  \<open>post.text.substring\<close>, which exists on strings only: after storing a post whose text
  is not a string the \<open>for\<close> loop is left through the handler's \<open>catch\<close>.
\<close>

type_synonym accumulator = "(string \<times> LinkedInPost) list"

fun fold_posts :: "LinkedInPost list \<Rightarrow> accumulator \<Rightarrow> accumulator" where
  "fold_posts [] allPosts = allPosts"
| "fold_posts (post # rest) allPosts =
     (if id_post post \<noteq> [] \<and> truthy (text_post post) \<and> \<not> Map_has allPosts (id_post post)
      then (let allPosts' = Map_set (id_post post) post allPosts
            in case text_post post of
                 Str t \<Rightarrow> fold_posts rest allPosts'
               | _ \<Rightarrow> allPosts')
      else fold_posts rest allPosts)"

definition on_payload :: "accumulator \<Rightarrow> jsval \<Rightarrow> accumulator" where
  "on_payload allPosts json =
     (case extractPosts json of
        Inr posts \<Rightarrow> fold_posts posts allPosts
      | Inl e \<Rightarrow> allPosts)"

section \<open>Pagination Controller (scraper.ts, autoScroll)\<close>

text \<open>
  The page is the environment: \<open>height k\<close> is what the k-th read of
  \<open>document.body.scrollHeight\<close> returns (counting from 0), and \<open>shouldStop\<close>, when the
  caller gave one, answers \<open>f i\<close> at iteration \<open>i\<close>. The loop is the \<open>for\<close> loop with its
  three local variables; the tally counts what it did: bodies entered, heights read,
  scrolls requested. \<open>maxScrolls\<close> is a natural number: the command line accepts
  positive integers only and the default is 100. The calls into the page are taken to
  succeed.
\<close>

datatype scroll_exit = PostLimit | NoMorePosts | MaxScrolls

record tally =
  iterations :: nat
  measurements :: nat
  scrolls :: nat

text \<open>\<open>shouldStop?.()\<close> at iteration \<open>i\<close>: \<open>undefined\<close>, so not true, when no predicate was given.\<close>

definition stop_now :: "(nat \<Rightarrow> bool) option \<Rightarrow> nat \<Rightarrow> bool" where
  "stop_now shouldStop i = (case shouldStop of Some f \<Rightarrow> f i | None \<Rightarrow> False)"

function autoScroll_loop ::
  "(nat \<Rightarrow> int) \<Rightarrow> (nat \<Rightarrow> bool) option \<Rightarrow> nat \<Rightarrow> nat \<Rightarrow> int \<Rightarrow> nat \<Rightarrow> tally
     \<Rightarrow> scroll_exit \<times> nat \<times> tally" where
  "autoScroll_loop height shouldStop maxScrolls i previousHeight noChangeCount t =
     (if i < maxScrolls then
        (if stop_now shouldStop i
         then (PostLimit, i, t\<lparr>iterations := iterations t + 1\<rparr>)
         else
           (if height (measurements t) = previousHeight then
              (if noChangeCount + 1 \<ge> 3
               then (NoMorePosts, i,
                     t\<lparr>iterations := iterations t + 1, measurements := measurements t + 1\<rparr>)
               else autoScroll_loop height shouldStop maxScrolls (i + 1)
                      (height (measurements t)) (noChangeCount + 1)
                      (t\<lparr>iterations := iterations t + 1, measurements := measurements t + 1,
                         scrolls := scrolls t + 1\<rparr>))
            else autoScroll_loop height shouldStop maxScrolls (i + 1)
                   (height (measurements t)) 0
                   (t\<lparr>iterations := iterations t + 1, measurements := measurements t + 1,
                      scrolls := scrolls t + 1\<rparr>)))
      else (MaxScrolls, i, t))"
  by pat_completeness auto
termination
  by (relation "measure (\<lambda>(height, shouldStop, maxScrolls, i, previousHeight, noChangeCount, t).
                           maxScrolls - i)") auto

definition autoScroll ::
  "(nat \<Rightarrow> int) \<Rightarrow> (nat \<Rightarrow> bool) option \<Rightarrow> nat \<Rightarrow> scroll_exit \<times> nat \<times> tally" where
  "autoScroll height shouldStop maxScrolls =
     autoScroll_loop height shouldStop maxScrolls 0 0 0
       \<lparr>iterations = 0, measurements = 0, scrolls = 0\<rparr>"

text \<open>
  What the loop compares: the sizes it observes are the initial \<open>previousHeight\<close>, 0,
  and then the measurements. \<open>unchanged3 height n\<close>: the measurements \<open>n\<close>, \<open>n + 1\<close>
  and \<open>n + 2\<close> each equal the size observed just before them.
\<close>

definition observed :: "(nat \<Rightarrow> int) \<Rightarrow> nat \<Rightarrow> int" where
  "observed height n = (case n of 0 \<Rightarrow> 0 | Suc k \<Rightarrow> height k)"

definition unchanged3 :: "(nat \<Rightarrow> int) \<Rightarrow> nat \<Rightarrow> bool" where
  "unchanged3 height n =
     (observed height (n + 1) = observed height n
      \<and> observed height (n + 2) = observed height (n + 1)
      \<and> observed height (n + 3) = observed height (n + 2))"

text \<open>
  A page whose successive heights are the given ones and which then keeps the last
  (an empty page, with no heights given, stays at 0).
\<close>

definition heights :: "int list \<Rightarrow> nat \<Rightarrow> int" where
  "heights hs k = (if k < length hs then hs ! k else if hs = [] then 0 else last hs)"

section \<open>Merge with the persisted collection (scraper.ts, getLinkedInPosts)\<close>

text \<open>
  The records of the run, \<open>newPosts\<close>: the values of \<open>allPosts\<close>, cut to \<open>postLimit\<close>
  when a limit is set (\<open>undefined\<close> and 0 are both "no limit"; the command line
  accepts positive integers only).
\<close>

definition newPosts_of :: "nat option \<Rightarrow> accumulator \<Rightarrow> LinkedInPost list" where
  "newPosts_of postLimit allPosts =
     (case postLimit of
        Some n \<Rightarrow> if n \<noteq> 0 then take n (Map_values allPosts) else Map_values allPosts
      | None \<Rightarrow> Map_values allPosts)"

text \<open>
  What the run finds at \<open>outputPath\<close>: no file, a file that cannot be read as a
  collection (the \<open>catch\<close>), or the \<open>LinkedInPost[]\<close> an earlier run wrote.
\<close>

datatype output_file = No_file | Corrupted | Existing "LinkedInPost list"

definition set_all :: "LinkedInPost list \<Rightarrow> accumulator \<Rightarrow> accumulator" where
  "set_all ps mergedMap = fold (\<lambda>p m. Map_set (id_post p) p m) ps mergedMap"

definition merged_posts :: "output_file \<Rightarrow> LinkedInPost list \<Rightarrow> LinkedInPost list" where
  "merged_posts file newPosts =
     (case file of
        Existing existing \<Rightarrow> Map_values (set_all newPosts (set_all existing []))
      | _ \<Rightarrow> newPosts)"

text \<open>The records of a prior collection; none when there is no readable file.\<close>

definition prior :: "output_file \<Rightarrow> LinkedInPost list" where
  "prior file = (case file of Existing existing \<Rightarrow> existing | _ \<Rightarrow> [])"

section \<open>Credential Store (auth.ts, loadCredentials)\<close>

text \<open>
  The credentials file as \<open>loadCredentials\<close> can find it: absent; present but
  unreadable or not JSON (\<open>readFileSync\<close> or \<open>JSON.parse\<close> throws inside the \<open>try\<close>);
  or holding JSON, given here as the parsed value. The function returns the parsed
  value as it is; \<open>null\<close> is its "none".
\<close>

datatype credentials_file = File_missing | File_unparseable | File_json jsval

definition loadCredentials :: "credentials_file \<Rightarrow> exn + jsval" where
  "loadCredentials file =
     (case file of
        File_missing \<Rightarrow> Inr Null
      | File_unparseable \<Rightarrow> Inr Null
      | File_json v \<Rightarrow> Inr v)"

text \<open>
  A fully populated Credential Record, as JSON: an object with the six fields of the
  \<open>Credentials\<close> interface, five strings and a number. The refresh token may be the
  empty string, which is how \<open>authenticate\<close> stores an absent one.
\<close>

definition is_string :: "jsval \<Rightarrow> bool" where
  "is_string v = (case v of Str s \<Rightarrow> True | _ \<Rightarrow> False)"

definition is_number :: "jsval \<Rightarrow> bool" where
  "is_number v = (case v of Num n \<Rightarrow> True | _ \<Rightarrow> False)"

definition fully_populated :: "jsval \<Rightarrow> bool" where
  "fully_populated v =
     (is_string (opt v ''clientId'') \<and> is_string (opt v ''clientSecret'')
      \<and> is_string (opt v ''accessToken'') \<and> is_string (opt v ''refreshToken'')
      \<and> is_string (opt v ''personId'') \<and> is_number (opt v ''expiresAt''))"

section \<open>Token Authority (auth.ts, refreshAccessToken and getValidCredentials)\<close>

text \<open>
  From here on the stored record is taken at its declared type: \<open>stored\<close> is what
  \<open>loadCredentials()\<close> returns as \<open>Credentials | null\<close>, and \<open>saveCredentials\<close> replaces
  it (writes to the file system are taken to succeed).
\<close>

record Credentials =
  clientId :: string
  clientSecret :: string
  accessToken :: string
  refreshToken :: string
  personId :: string
  expiresAt :: int

text \<open>
  The token endpoint's answer to one POST: the request fails (the promise rejects),
  the body is not JSON (\<open>JSON.parse\<close> throws), the body is JSON \<open>null\<close> (reading a
  field of it throws), or the body is another JSON value. Of that value the code reads
  three fields, each through \<open>!\<close> or \<open>||\<close>, under which an absent field, an empty
  string and 0 behave alike: an absent string field is given as the empty string and
  an absent number as 0. The status of the answer is not looked at.
\<close>

record tokens =
  access_token :: string
  refresh_token :: string
  expires_in :: int

datatype token_reply = Request_failed | Body_not_json | Body_null | Body_json tokens

datatype error =
    No_credentials_found
  | No_refresh_token
  | Token_refresh_failed
  | Network_error
  | Json_syntax_error
  | Null_body_error

text \<open>
  The world the two functions act on: the stored record, the clock (\<open>Date.now()\<close>, in
  milliseconds), the token endpoint (its reply to the k-th request), and counters of
  what has been done: entries into \<open>refreshAccessToken\<close>, requests sent to the token
  endpoint, invocations of the call-function of \<open>withRetry\<close>.
\<close>

record world =
  stored :: "Credentials option"
  now_ms :: int
  token_endpoint :: "nat \<Rightarrow> token_reply"
  refreshes :: nat
  token_requests :: nat
  calls :: nat

definition refreshAccessToken :: "Credentials \<Rightarrow> world \<Rightarrow> (error + Credentials) \<times> world" where
  "refreshAccessToken creds w =
     (let w1 = w\<lparr>refreshes := refreshes w + 1\<rparr>
      in if refreshToken creds = [] then (Inl No_refresh_token, w1)
         else
           (let w2 = w1\<lparr>token_requests := token_requests w1 + 1\<rparr>
            in case token_endpoint w (token_requests w) of
                 Request_failed \<Rightarrow> (Inl Network_error, w2)
               | Body_not_json \<Rightarrow> (Inl Json_syntax_error, w2)
               | Body_null \<Rightarrow> (Inl Null_body_error, w2)
               | Body_json tk \<Rightarrow>
                   if access_token tk = [] then (Inl Token_refresh_failed, w2)
                   else
                     (let updated = creds
                            \<lparr>accessToken := access_token tk,
                             refreshToken := (if refresh_token tk \<noteq> [] then refresh_token tk
                                              else refreshToken creds),
                             expiresAt := now_ms w div 1000
                                          + (if expires_in tk \<noteq> 0 then expires_in tk else 5184000)\<rparr>
                      in (Inr updated, w2\<lparr>stored := Some updated\<rparr>))))"

definition getValidCredentials :: "world \<Rightarrow> (error + Credentials) \<times> world" where
  "getValidCredentials w =
     (case stored w of
        None \<Rightarrow> (Inl No_credentials_found, w)
      | Some creds \<Rightarrow>
          (let oneDayFromNow = now_ms w div 1000 + 86400
           in if expiresAt creds < oneDayFromNow then refreshAccessToken creds w
              else (Inr creds, w)))"

section \<open>Resilient Request Executor (poster.ts, withRetry)\<close>

record response =
  status :: nat
  body :: string
  headers :: "(string \<times> string) list"

record PostResult =
  success :: bool
  postId :: "string option"
  error_message :: "string option"

text \<open>
  The call-function: \<open>fn k creds\<close> is the outcome of its k-th invocation (counting from
  0) in this run, a response or a rejected promise.
\<close>

datatype call_outcome = Rejected | Responded response

text \<open>A status code in decimal, for the message \<open>HTTP <status>: <body>\<close>.\<close>

fun decimal :: "nat \<Rightarrow> string" where
  "decimal n =
     (if n < 10 then [''0123456789'' ! n]
      else decimal (n div 10) @ [''0123456789'' ! (n mod 10)])"

text \<open>The last two lines of \<open>withRetry\<close>.\<close>

definition conclude :: "(response \<Rightarrow> PostResult) \<Rightarrow> response \<Rightarrow> PostResult" where
  "conclude onSuccess resp =
     (if status resp \<ge> 200 \<and> status resp < 300 then onSuccess resp
      else \<lparr>success = False, postId = None,
            error_message = Some (''HTTP '' @ decimal (status resp) @ '': '' @ body resp)\<rparr>)"

text \<open>
  An exception (from the credential functions or from a rejected call) leaves
  \<open>withRetry\<close>, which has no \<open>try\<close>: the result is \<open>Inl\<close>. A \<open>PostResult\<close>, success or
  failure, is \<open>Inr\<close>.
\<close>

datatype thrown = Auth_error error | Call_rejected

definition withRetry ::
  "(nat \<Rightarrow> Credentials \<Rightarrow> call_outcome) \<Rightarrow> (response \<Rightarrow> PostResult) \<Rightarrow> world
     \<Rightarrow> (thrown + PostResult) \<times> world" where
  "withRetry fn onSuccess w =
     (case getValidCredentials w of
        (Inl e, w1) \<Rightarrow> (Inl (Auth_error e), w1)
      | (Inr creds, w1) \<Rightarrow>
          (let w2 = w1\<lparr>calls := calls w1 + 1\<rparr>
           in case fn 0 creds of
                Rejected \<Rightarrow> (Inl Call_rejected, w2)
              | Responded resp \<Rightarrow>
                  if status resp = 401 then
                    (case refreshAccessToken creds w2 of
                       (Inl e, w3) \<Rightarrow> (Inl (Auth_error e), w3)
                     | (Inr creds', w3) \<Rightarrow>
                         (let w4 = w3\<lparr>calls := calls w3 + 1\<rparr>
                          in case fn 1 creds' of
                               Rejected \<Rightarrow> (Inl Call_rejected, w4)
                             | Responded resp' \<Rightarrow> (Inr (conclude onSuccess resp'), w4)))
                  else (Inr (conclude onSuccess resp), w2)))"

section \<open>Vocabulary of the properties\<close>

text \<open>The items of a payload: the \<open>included\<close> array, empty when there is none.\<close>

definition included_of :: "jsval \<Rightarrow> jsval list" where
  "included_of data = (case opt data ''included'' of Arr included \<Rightarrow> included | _ \<Rightarrow> [])"

text \<open>A payload with the given items, and a commentary item with an entity URN and a text.\<close>

definition payload :: "jsval list \<Rightarrow> jsval" where
  "payload items = Obj [(''included'', Arr items)]"

definition commentary_item :: "string \<Rightarrow> string \<Rightarrow> jsval" where
  "commentary_item dashUrn t =
     Obj [(''entityUrn'', Str dashUrn),
          (''commentary'', Obj [(''text'', Obj [(''text'', Str t)])])]"

text \<open>An item that step 1 enters into \<open>countsMap\<close> under the given URN.\<close>

definition counts_item_for :: "jsval \<Rightarrow> string \<Rightarrow> bool" where
  "counts_item_for item urn =
     (opt item ''$type'' = Str ''com.linkedin.voyager.dash.feed.SocialActivityCounts''
      \<and> opt item ''urn'' = Str urn)"

text \<open>The record \<open>extractPosts\<close> builds for an item when it finds no counts for it.\<close>

definition post_without_counts :: "jsval \<Rightarrow> string \<Rightarrow> LinkedInPost" where
  "post_without_counts item activityId =
     \<lparr>id_post = ''urn:li:activity:'' @ activityId,
      text_post = commentary_of item,
      publishedAt = publishedAt_of item,
      numLikes = Num 0, numComments = Num 0, numShares = Num 0,
      url = ''https://www.linkedin.com/feed/update/'' @ (''urn:li:activity:'' @ activityId) @ ''/''\<rparr>"

text \<open>
  The JSON that \<open>saveCredentials\<close> writes for a record (\<open>JSON.stringify\<close> of the six
  fields), as \<open>JSON.parse\<close> reads it back.
\<close>

definition saved_json :: "Credentials \<Rightarrow> jsval" where
  "saved_json creds =
     Obj [(''clientId'', Str (clientId creds)),
          (''clientSecret'', Str (clientSecret creds)),
          (''accessToken'', Str (accessToken creds)),
          (''refreshToken'', Str (refreshToken creds)),
          (''personId'', Str (personId creds)),
          (''expiresAt'', Num (expiresAt creds))]"

text \<open>Every entry of a \<open>Map\<close> of posts stands under its own identifier.\<close>

definition keyed :: "accumulator \<Rightarrow> bool" where
  "keyed m = (\<forall>(k, p) \<in> set m. k = id_post p)"

text \<open>
  The invariant of the scroll loop at the head of iteration \<open>i\<close>: all three counts are
  \<open>i\<close>, \<open>previousHeight\<close> is the size observed last, and \<open>noChangeCount\<close>, at most 2,
  counts observations that each repeated the one before.
\<close>

definition loop_inv :: "(nat \<Rightarrow> int) \<Rightarrow> nat \<Rightarrow> int \<Rightarrow> nat \<Rightarrow> tally \<Rightarrow> bool" where
  "loop_inv height i previousHeight noChangeCount t =
     (iterations t = i \<and> measurements t = i \<and> scrolls t = i
      \<and> previousHeight = observed height i
      \<and> noChangeCount \<le> 2 \<and> noChangeCount \<le> i
      \<and> (\<forall>d < noChangeCount. observed height (i - d) = observed height (i - d - 1)))"

subsection \<open>Sample inputs\<close>

definition sample_counts_item :: jsval where
  "sample_counts_item =
     Obj [(''$type'', Str ''com.linkedin.voyager.dash.feed.SocialActivityCounts''),
          (''urn'', Str ''urn:li:activity:1''),
          (''numLikes'', Num 5), (''numComments'', Num 2), (''numShares'', Num 1)]"

definition sample_post :: "string \<Rightarrow> int \<Rightarrow> LinkedInPost" where
  "sample_post k likes =
     \<lparr>id_post = k, text_post = Str ''t'', publishedAt = Str '''',
      numLikes = Num likes, numComments = Num 0, numShares = Num 0, url = ''u''\<rparr>"

definition partial_record :: jsval where
  "partial_record = Obj [(''accessToken'', Str ''abc'')]"

definition sample_creds :: "string \<Rightarrow> int \<Rightarrow> Credentials" where
  "sample_creds rt expiry =
     \<lparr>clientId = ''id'', clientSecret = ''secret'', accessToken = ''old'',
      refreshToken = rt, personId = ''me'', expiresAt = expiry\<rparr>"

definition endpoint_ok :: "nat \<Rightarrow> token_reply" where
  "endpoint_ok k = Body_json \<lparr>access_token = ''new'', refresh_token = '''', expires_in = 3600\<rparr>"

text \<open>A world at time 0 (so one day from now is 86400) with the given stored record.\<close>

definition sample_world :: "Credentials \<Rightarrow> world" where
  "sample_world creds =
     \<lparr>stored = Some creds, now_ms = 0, token_endpoint = endpoint_ok,
      refreshes = 0, token_requests = 0, calls = 0\<rparr>"

text \<open>A call-function that answers 401 the first time and 200 afterwards.\<close>

definition fn_401_then_200 :: "nat \<Rightarrow> Credentials \<Rightarrow> call_outcome" where
  "fn_401_then_200 k creds =
     Responded \<lparr>status = (if k = 0 then 401 else 200), body = ''b'', headers = []\<rparr>"

definition on_ok :: "response \<Rightarrow> PostResult" where
  "on_ok resp = \<lparr>success = True, postId = Some ''p'', error_message = None\<rparr>"

section \<open>The Record Extractor and the Accumulator\<close>

lemma collect_posts_no_commentary:
  "\<forall>item \<in> set items. \<not> truthy (commentary_of item) \<Longrightarrow>
   collect_posts countsMap items posts = (posts, None)"
  by (induction items) simp_all

lemma extractPosts_included:
  "extractPosts data
   = Inr (fst (collect_posts (build_countsMap (included_of data) []) (included_of data) []))"
  by (simp add: extractPosts_def included_of_def split: jsval.splits)

text \<open>
  C8. \<open>extractPosts\<close> returns a list for every payload, never an exception, and the
  list is empty when no item of the payload has a commentary; a payload that is not an
  object, or whose \<open>included\<close> is not an array, has no items.
\<close>

theorem extractPosts_no_commentary:
  "(\<exists>posts. extractPosts data = Inr posts)
   \<and> ((\<forall>item \<in> set (included_of data). \<not> truthy (commentary_of item))
        \<longrightarrow> extractPosts data = Inr [])"
  by (simp add: extractPosts_included collect_posts_no_commentary)

text \<open>A payload with a counts item only, and payloads that are a number and an array.\<close>

theorem extractPosts_no_commentary_witness:
  "extractPosts (payload [sample_counts_item]) = Inr []
   \<and> extractPosts (Num 7) = Inr []
   \<and> extractPosts (Arr [Obj [(''included'', Null)]]) = Inr []"
proof -
  have "\<forall>item \<in> set (included_of (payload [sample_counts_item])). \<not> truthy (commentary_of item)"
    by (simp add: included_of_def payload_def sample_counts_item_def commentary_of_def)
  moreover have "\<forall>item \<in> set (included_of (Num 7)). \<not> truthy (commentary_of item)"
    by (simp add: included_of_def)
  moreover have "\<forall>item \<in> set (included_of (Arr [Obj [(''included'', Null)]])).
                   \<not> truthy (commentary_of item)"
    by (simp add: included_of_def)
  ultimately show ?thesis
    using extractPosts_no_commentary[of "payload [sample_counts_item]"]
      extractPosts_no_commentary[of "Num 7"]
      extractPosts_no_commentary[of "Arr [Obj [(''included'', Null)]]"]
    by blast
qed

text \<open>A payload without commentary leaves the Accumulator as it is.\<close>

lemma on_payload_no_commentary:
  "\<forall>item \<in> set (included_of data). \<not> truthy (commentary_of item) \<Longrightarrow>
   on_payload allPosts data = allPosts"
  by (simp add: on_payload_def extractPosts_included collect_posts_no_commentary)

lemma activity_match_nonempty: "activity_match s = Some d \<Longrightarrow> s \<noteq> []"
  by (cases s) simp_all

text \<open>
  A payload in which one item has a commentary and an activity URN, no other item has
  a commentary, and no item is the counts item of that activity, gives one record,
  with the default counters.
\<close>

lemma build_countsMap_none:
  "\<forall>it \<in> set items. \<not> counts_item_for it urn \<Longrightarrow> map_of countsMap (Str urn) = None \<Longrightarrow>
   map_of (build_countsMap items countsMap) (Str urn) = None"
proof (induction items arbitrary: countsMap)
  case Nil
  then show ?case by simp
next
  case (Cons item rest)
  show ?case
  proof (cases "opt item ''$type'' = Str ''com.linkedin.voyager.dash.feed.SocialActivityCounts''
                \<and> truthy (opt item ''urn'')")
    case True
    with Cons.prems(1) have "opt item ''urn'' \<noteq> Str urn"
      unfolding counts_item_for_def by auto
    with Cons.prems(2) have "map_of (Map_set (opt item ''urn'')
        (js_or (opt item ''numLikes'') (Num 0), js_or (opt item ''numComments'') (Num 0),
         js_or (opt item ''numShares'') (Num 0)) countsMap) (Str urn) = None"
      by (simp add: Map_set_def update_conv')
    with Cons.IH Cons.prems(1) True show ?thesis by simp
  next
    case False
    with Cons.IH Cons.prems show ?thesis by auto
  qed
qed

lemma collect_posts_skip:
  "\<forall>it \<in> set before. \<not> truthy (commentary_of it) \<Longrightarrow>
   collect_posts countsMap (before @ items) posts = collect_posts countsMap items posts"
  by (induction before) simp_all

lemma extractPosts_one_commentary:
  assumes items: "included_of data = before @ item # after"
    and others: "\<forall>it \<in> set before \<union> set after. \<not> truthy (commentary_of it)"
    and c: "truthy (commentary_of item)"
    and u: "dashUrn_of item = Str dashUrn"
    and m: "activity_match dashUrn = Some activityId"
    and nk: "\<forall>it \<in> set (included_of data). \<not> counts_item_for it (''urn:li:activity:'' @ activityId)"
  shows "extractPosts data = Inr [post_without_counts item activityId]"
proof -
  let ?cm = "build_countsMap (included_of data) []"
  have cm: "map_of ?cm (Str (''urn:li:activity:'' @ activityId)) = None"
    using nk by (rule build_countsMap_none) simp
  from others have "collect_posts ?cm (included_of data) [] = collect_posts ?cm (item # after) []"
    by (simp add: items collect_posts_skip del: collect_posts.simps)
  also have "\<dots> = collect_posts ?cm after [post_without_counts item activityId]"
    using c cm by (simp add: u m post_without_counts_def Let_def)
  also from others have "\<dots> = ([post_without_counts item activityId], None)"
    by (simp add: collect_posts_no_commentary)
  finally show ?thesis by (simp add: extractPosts_included)
qed

lemma on_payload_one_commentary:
  assumes "included_of data = before @ item # after"
    "\<forall>it \<in> set before \<union> set after. \<not> truthy (commentary_of it)"
    "truthy (commentary_of item)"
    "dashUrn_of item = Str dashUrn" "activity_match dashUrn = Some activityId"
    "\<forall>it \<in> set (included_of data). \<not> counts_item_for it (''urn:li:activity:'' @ activityId)"
  shows "on_payload [] data
         = [(''urn:li:activity:'' @ activityId, post_without_counts item activityId)]"
proof -
  have "fold_posts [post_without_counts item activityId] []
        = [(''urn:li:activity:'' @ activityId, post_without_counts item activityId)]"
    using assms(3)
    by (simp add: Map_has_def Map_set_def post_without_counts_def Let_def split: jsval.splits)
  with extractPosts_one_commentary[OF assms] show ?thesis by (simp add: on_payload_def)
qed

text \<open>
  When the counts item and the commentary item of one activity share a payload, the
  record does carry the counts: the lookup is among the items of that payload.
\<close>

lemma counts_in_same_payload:
  "on_payload [] (payload [commentary_item ''urn:li:activity:1'' ''hello'', sample_counts_item])
   = [(''urn:li:activity:1'',
       \<lparr>id_post = ''urn:li:activity:1'', text_post = Str ''hello'', publishedAt = Str '''',
        numLikes = Num 5, numComments = Num 2, numShares = Num 1,
        url = ''https://www.linkedin.com/feed/update/urn:li:activity:1/''\<rparr>)]"
  by (simp add: on_payload_def extractPosts_def payload_def commentary_item_def
      sample_counts_item_def commentary_of_def dashUrn_of_def publishedAt_of_def js_or_def
      Map_set_def Map_has_def is_digit_def Let_def)

text \<open>
  C1, as stated, fails. The counts item of activity 1 (5 likes, 2 comments, 1 share)
  arrives in one payload and its commentary in the next; the Accumulator then holds one
  record for the activity, with the text and with all three counters 0, not 5, 2 and 1.
\<close>

theorem counts_apart_counterexample:
  "on_payload (on_payload [] (payload [sample_counts_item]))
     (payload [commentary_item ''urn:li:activity:1'' ''hello''])
   = [(''urn:li:activity:1'',
       \<lparr>id_post = ''urn:li:activity:1'', text_post = Str ''hello'', publishedAt = Str '''',
        numLikes = Num 0, numComments = Num 0, numShares = Num 0,
        url = ''https://www.linkedin.com/feed/update/urn:li:activity:1/''\<rparr>)]
   \<and> opt sample_counts_item ''urn'' = Str ''urn:li:activity:1''
   \<and> opt sample_counts_item ''numLikes'' = Num 5
   \<and> opt sample_counts_item ''numComments'' = Num 2
   \<and> opt sample_counts_item ''numShares'' = Num 1
   \<and> Num 0 \<noteq> Num 5"
  by (simp add: on_payload_def extractPosts_def payload_def commentary_item_def
      sample_counts_item_def commentary_of_def dashUrn_of_def publishedAt_of_def js_or_def
      Map_set_def Map_has_def is_digit_def Let_def)

text \<open>
  C1, amended. One payload has no commentary item (such as a payload of counts items
  only, for any activities and with any counters). The other payload has an item with
  a commentary whose entity URN names activity A; none of its other items has a
  commentary and none of its items is the counts item of A. Both are folded into the
  empty Accumulator, in either order. The Accumulator then holds exactly one record,
  for A: its text is the commentary and its three counters are 0; the counts of the
  other payload are not used. More generally the payload without commentary changes
  no Accumulator, whatever else is folded in before or after it.
\<close>

theorem counts_apart_amended:
  assumes "\<forall>it \<in> set (included_of counts_payload). \<not> truthy (commentary_of it)"
    and "included_of text_payload = before @ item # after"
    and "\<forall>it \<in> set before \<union> set after. \<not> truthy (commentary_of it)"
    and "truthy (commentary_of item)"
    and "dashUrn_of item = Str dashUrn"
    and "activity_match dashUrn = Some activityId"
    and "\<forall>it \<in> set (included_of text_payload).
           \<not> counts_item_for it (''urn:li:activity:'' @ activityId)"
  shows "on_payload (on_payload [] counts_payload) text_payload
           = [(''urn:li:activity:'' @ activityId, post_without_counts item activityId)]
         \<and> on_payload (on_payload [] text_payload) counts_payload
           = [(''urn:li:activity:'' @ activityId, post_without_counts item activityId)]
         \<and> on_payload (on_payload allPosts counts_payload) other = on_payload allPosts other
         \<and> on_payload (on_payload allPosts other) counts_payload = on_payload allPosts other"
  using assms(1) on_payload_one_commentary[OF assms(2-7)]
  by (simp add: on_payload_no_commentary)

text \<open>
  The counts of activity 1 in one payload; its commentary, with an item of another
  kind after it, in the other.
\<close>

theorem counts_apart_amended_witness:
  "on_payload (on_payload [] (payload [sample_counts_item]))
     (payload [commentary_item ''urn:li:fsd_update:(urn:li:activity:1,MEMBER)'' ''hello'',
               Obj [(''$type'', Str ''other'')]])
   = [(''urn:li:activity:1'',
       \<lparr>id_post = ''urn:li:activity:1'', text_post = Str ''hello'', publishedAt = Str '''',
        numLikes = Num 0, numComments = Num 0, numShares = Num 0,
        url = ''https://www.linkedin.com/feed/update/urn:li:activity:1/''\<rparr>)]
   \<and> on_payload
       (on_payload []
          (payload [commentary_item ''urn:li:fsd_update:(urn:li:activity:1,MEMBER)'' ''hello'',
                    Obj [(''$type'', Str ''other'')]]))
       (payload [sample_counts_item])
   = [(''urn:li:activity:1'',
       \<lparr>id_post = ''urn:li:activity:1'', text_post = Str ''hello'', publishedAt = Str '''',
        numLikes = Num 0, numComments = Num 0, numShares = Num 0,
        url = ''https://www.linkedin.com/feed/update/urn:li:activity:1/''\<rparr>)]"
proof -
  let ?item = "commentary_item ''urn:li:fsd_update:(urn:li:activity:1,MEMBER)'' ''hello''"
  let ?other = "Obj [(''$type'', Str ''other'')]"
  have h1: "\<forall>it \<in> set (included_of (payload [sample_counts_item])). \<not> truthy (commentary_of it)"
    by (simp add: included_of_def payload_def sample_counts_item_def commentary_of_def)
  have h2: "included_of (payload [?item, ?other]) = [] @ ?item # [?other]"
    by (simp add: included_of_def payload_def)
  have h3: "\<forall>it \<in> set [] \<union> set [?other]. \<not> truthy (commentary_of it)"
    by (simp add: commentary_of_def)
  have h4: "truthy (commentary_of ?item)"
    by (simp add: commentary_of_def commentary_item_def)
  have h5: "dashUrn_of ?item = Str ''urn:li:fsd_update:(urn:li:activity:1,MEMBER)''"
    by (simp add: dashUrn_of_def commentary_item_def js_or_def)
  have h6: "activity_match ''urn:li:fsd_update:(urn:li:activity:1,MEMBER)'' = Some ''1''"
    by (simp add: is_digit_def)
  have h7: "\<forall>it \<in> set (included_of (payload [?item, ?other])).
              \<not> counts_item_for it (''urn:li:activity:'' @ ''1'')"
    by (simp add: included_of_def payload_def counts_item_for_def commentary_item_def)
  have p: "post_without_counts ?item ''1''
           = \<lparr>id_post = ''urn:li:activity:1'', text_post = Str ''hello'', publishedAt = Str '''',
              numLikes = Num 0, numComments = Num 0, numShares = Num 0,
              url = ''https://www.linkedin.com/feed/update/urn:li:activity:1/''\<rparr>"
    by (simp add: post_without_counts_def commentary_of_def publishedAt_of_def
        commentary_item_def js_or_def)
  note both = counts_apart_amended[OF h1 h2 h3 h4 h5 h6 h7, of "[]" Null]
  from both[THEN conjunct1] both[THEN conjunct2, THEN conjunct1] p show ?thesis by simp
qed

section \<open>The Pagination Controller\<close>

lemma autoScroll_loop_tally:
  "autoScroll_loop height shouldStop maxScrolls i previousHeight noChangeCount t = (r, j, t') \<Longrightarrow>
   i \<le> maxScrolls \<Longrightarrow>
   iterations t' + i \<le> iterations t + maxScrolls
   \<and> measurements t' + i \<le> measurements t + maxScrolls
   \<and> scrolls t' + i \<le> scrolls t + maxScrolls
   \<and> j \<le> maxScrolls"
proof (induction height shouldStop maxScrolls i previousHeight noChangeCount t
    rule: autoScroll_loop.induct)
  case (1 height shouldStop maxScrolls i previousHeight noChangeCount t)
  show ?case
  proof (cases "i < maxScrolls")
    case False
    with "1.prems" show ?thesis by (auto simp: autoScroll_loop.simps[of _ _ maxScrolls i])
  next
    case True
    note lt = this
    show ?thesis
    proof (cases "stop_now shouldStop i")
      case True
      with lt "1.prems" show ?thesis by (auto simp: autoScroll_loop.simps[of _ _ maxScrolls i])
    next
      case False
      note ns = this
      show ?thesis
      proof (cases "height (measurements t) = previousHeight")
        case True
        note same = this
        show ?thesis
        proof (cases "noChangeCount + 1 \<ge> 3")
          case True
          with lt ns same "1.prems" show ?thesis
            by (auto simp: autoScroll_loop.simps[of _ _ maxScrolls i])
        next
          case False
          with lt ns same "1.prems" "1.IH"(1) show ?thesis
            by (auto simp: autoScroll_loop.simps[of _ _ maxScrolls i])
        qed
      next
        case False
        with lt ns "1.prems" "1.IH"(2) show ?thesis
          by (auto simp: autoScroll_loop.simps[of _ _ maxScrolls i])
      qed
    qed
  qed
qed

text \<open>
  C7. For every page (every sequence of heights), every target predicate and every
  cap, \<open>autoScroll\<close> returns, having entered the loop body at most \<open>maxScrolls\<close> times
  (and so having measured and scrolled at most that often). That it returns at all is
  the termination of \<open>autoScroll_loop\<close>, proved with the measure \<open>maxScrolls - i\<close>.
\<close>

theorem autoScroll_bounded:
  "(case autoScroll height shouldStop maxScrolls of
      (r, j, t) \<Rightarrow> iterations t \<le> maxScrolls \<and> measurements t \<le> maxScrolls
                   \<and> scrolls t \<le> maxScrolls \<and> j \<le> maxScrolls)"
proof -
  obtain r j t where res: "autoScroll height shouldStop maxScrolls = (r, j, t)"
    by (cases "autoScroll height shouldStop maxScrolls") auto
  then have "autoScroll_loop height shouldStop maxScrolls 0 0 0
       \<lparr>iterations = 0, measurements = 0, scrolls = 0\<rparr> = (r, j, t)"
    by (simp add: autoScroll_def)
  from autoScroll_loop_tally[OF this] res show ?thesis by simp
qed

text \<open>A page that grows at every measurement, under a cap of 7.\<close>

theorem autoScroll_bounded_witness:
  "autoScroll int None 7 = (MaxScrolls, 7, \<lparr>iterations = 7, measurements = 7, scrolls = 7\<rparr>)
   \<and> iterations (snd (snd (autoScroll int None 7))) \<le> 7"
proof -
  have "autoScroll int None 7 = (MaxScrolls, 7, \<lparr>iterations = 7, measurements = 7, scrolls = 7\<rparr>)"
    by (simp add: autoScroll_def stop_now_def)
  with autoScroll_bounded[where height = int and shouldStop = None and maxScrolls = 7]
  show ?thesis by simp
qed

lemma observed_Suc: "observed height (Suc i) = height i"
  by (simp add: observed_def)

lemma loop_inv_start: "loop_inv height 0 0 0 \<lparr>iterations = 0, measurements = 0, scrolls = 0\<rparr>"
  by (simp add: loop_inv_def observed_def)

lemma loop_inv_same:
  assumes "loop_inv height i p c t" "height i = p" "\<not> c + 1 \<ge> 3"
  shows "loop_inv height (i + 1) (height i) (c + 1)
           (t\<lparr>iterations := iterations t + 1, measurements := measurements t + 1,
              scrolls := scrolls t + 1\<rparr>)"
proof -
  have "observed height (i + 1 - d) = observed height (i + 1 - d - 1)" if "d < c + 1" for d
  proof (cases d)
    case 0
    with assms show ?thesis by (simp add: loop_inv_def observed_Suc)
  next
    case (Suc e)
    with that have "e < c" by simp
    with assms(1) have "observed height (i - e) = observed height (i - e - 1)"
      by (simp add: loop_inv_def)
    with Suc show ?thesis by simp
  qed
  with assms show ?thesis by (simp add: loop_inv_def observed_Suc)
qed

lemma loop_inv_differ:
  assumes "loop_inv height i p c t"
  shows "loop_inv height (i + 1) (height i) 0
           (t\<lparr>iterations := iterations t + 1, measurements := measurements t + 1,
              scrolls := scrolls t + 1\<rparr>)"
  using assms by (simp add: loop_inv_def observed_Suc)

lemma loop_inv_exit:
  assumes "loop_inv height i p c t" "height i = p" "c + 1 \<ge> 3"
  shows "2 \<le> i \<and> unchanged3 height (i - 2)"
proof -
  from assms have c: "c = 2" and i: "2 \<le> i" by (simp_all add: loop_inv_def)
  from assms(1) c have "observed height (i - 0) = observed height (i - 0 - 1)"
    unfolding loop_inv_def by (metis zero_less_numeral)
  moreover from assms(1) c have "observed height (i - 1) = observed height (i - 1 - 1)"
    unfolding loop_inv_def by (metis one_less_numeral_iff semiring_norm(76))
  moreover from assms have "observed height (Suc i) = observed height i"
    by (simp add: loop_inv_def observed_Suc)
  moreover from i obtain m where "i = m + 2" by (metis add.commute le_Suc_ex)
  ultimately show ?thesis using i by (simp add: unchanged3_def numeral_3_eq_3 numeral_2_eq_2)
qed

text \<open>
  If the loop leaves with "no more posts" at iteration \<open>j\<close>, the measurements \<open>j - 2\<close>,
  \<open>j - 1\<close> and \<open>j\<close> each repeated the size observed before them, and the loop has
  measured \<open>j + 1\<close> times and scrolled \<open>j\<close> times.
\<close>

lemma loop_exit_sound:
  "loop_inv height i previousHeight noChangeCount t \<Longrightarrow>
   autoScroll_loop height shouldStop maxScrolls i previousHeight noChangeCount t
     = (NoMorePosts, j, t') \<Longrightarrow>
   2 \<le> j \<and> unchanged3 height (j - 2)
   \<and> t' = \<lparr>iterations = j + 1, measurements = j + 1, scrolls = j\<rparr>"
proof (induction height shouldStop maxScrolls i previousHeight noChangeCount t
    rule: autoScroll_loop.induct)
  case (1 height shouldStop maxScrolls i previousHeight noChangeCount t)
  note inv = "1.prems"(1) and run = "1.prems"(2)
  have m: "measurements t = i" using inv by (simp add: loop_inv_def)
  show ?case
  proof (cases "i < maxScrolls \<and> \<not> stop_now shouldStop i")
    case False
    with run show ?thesis
      by (auto simp: autoScroll_loop.simps[of _ _ maxScrolls i] split: if_splits)
  next
    case True
    note go = this
    show ?thesis
    proof (cases "height i = previousHeight")
      case True
      note same = this
      show ?thesis
      proof (cases "noChangeCount + 1 \<ge> 3")
        case True
        with go same m run have j: "j = i"
          and t': "t' = t\<lparr>iterations := iterations t + 1, measurements := measurements t + 1\<rparr>"
          by (auto simp: autoScroll_loop.simps[of _ _ maxScrolls i])
        from inv have "t = \<lparr>iterations = i, measurements = i, scrolls = i\<rparr>"
          by (simp add: loop_inv_def)
        with t' have "t' = \<lparr>iterations = i + 1, measurements = i + 1, scrolls = i\<rparr>" by simp
        with loop_inv_exit[OF inv same True] j show ?thesis by simp
      next
        case False
        from go same m False run
        have "autoScroll_loop height shouldStop maxScrolls (i + 1) (height (measurements t))
                (noChangeCount + 1)
                (t\<lparr>iterations := iterations t + 1, measurements := measurements t + 1,
                   scrolls := scrolls t + 1\<rparr>)
              = (NoMorePosts, j, t')"
          by (simp add: autoScroll_loop.simps[of _ _ maxScrolls i])
        moreover have "loop_inv height (i + 1) (height (measurements t)) (noChangeCount + 1)
                (t\<lparr>iterations := iterations t + 1, measurements := measurements t + 1,
                   scrolls := scrolls t + 1\<rparr>)"
          using loop_inv_same[OF inv same False] m by simp
        ultimately show ?thesis using "1.IH"(1) go same m False by simp
      qed
    next
      case False
      from go m False run
      have "autoScroll_loop height shouldStop maxScrolls (i + 1) (height (measurements t)) 0
              (t\<lparr>iterations := iterations t + 1, measurements := measurements t + 1,
                 scrolls := scrolls t + 1\<rparr>)
            = (NoMorePosts, j, t')"
        by (simp add: autoScroll_loop.simps[of _ _ maxScrolls i])
      moreover have "loop_inv height (i + 1) (height (measurements t)) 0
              (t\<lparr>iterations := iterations t + 1, measurements := measurements t + 1,
                 scrolls := scrolls t + 1\<rparr>)"
        using loop_inv_differ[OF inv] m by simp
      ultimately show ?thesis using "1.IH"(2) go m False by simp
    qed
  qed
qed

text \<open>
  If the measurements \<open>n\<close>, \<open>n + 1\<close> and \<open>n + 2\<close> each repeat the size observed before
  them and neither the cap nor the target predicate interferes, the loop leaves with
  "no more posts" at iteration \<open>n + 2\<close> at the latest.
\<close>

lemma loop_converges:
  "loop_inv height i previousHeight noChangeCount t \<Longrightarrow>
   unchanged3 height n \<Longrightarrow> n + 2 < maxScrolls \<Longrightarrow> (\<forall>k \<le> n + 2. \<not> stop_now shouldStop k) \<Longrightarrow>
   i \<le> n + 2 \<Longrightarrow> i \<le> noChangeCount + n \<Longrightarrow>
   \<exists>j t'. j \<le> n + 2 \<and>
     autoScroll_loop height shouldStop maxScrolls i previousHeight noChangeCount t
       = (NoMorePosts, j, t')"
proof (induction height shouldStop maxScrolls i previousHeight noChangeCount t
    rule: autoScroll_loop.induct)
  case (1 height shouldStop maxScrolls i previousHeight noChangeCount t)
  note inv = "1.prems"(1) and un = "1.prems"(2) and cap = "1.prems"(3) and ns = "1.prems"(4)
    and win = "1.prems"(5) and cnt = "1.prems"(6)
  have m: "measurements t = i" and p: "previousHeight = observed height i"
    using inv by (simp_all add: loop_inv_def)
  from win cap have lt: "i < maxScrolls" by simp
  from win ns have go: "\<not> stop_now shouldStop i" by simp
  have inwin: "height i = previousHeight" if "n \<le> i"
  proof -
    from that win have "i = n \<or> i = n + 1 \<or> i = n + 2" by auto
    moreover have "observed height (n + 1) = height n"
      "observed height (n + 2) = height (n + 1)"
      "observed height (n + 3) = height (n + 2)"
      by (simp_all add: observed_def numeral_3_eq_3)
    ultimately show ?thesis using un p by (auto simp: unchanged3_def)
  qed
  show ?case
  proof (cases "height i = previousHeight")
    case True
    note same = this
    show ?thesis
    proof (cases "noChangeCount + 1 \<ge> 3")
      case True
      with lt go same m win show ?thesis
        by (simp add: autoScroll_loop.simps[of _ _ maxScrolls i])
    next
      case False
      with cnt have "i + 1 \<le> n + 2" by simp
      moreover from cnt have "i + 1 \<le> noChangeCount + 1 + n" by simp
      moreover have "loop_inv height (i + 1) (height (measurements t)) (noChangeCount + 1)
                (t\<lparr>iterations := iterations t + 1, measurements := measurements t + 1,
                   scrolls := scrolls t + 1\<rparr>)"
        using loop_inv_same[OF inv same False] m by simp
      ultimately have "\<exists>j t'. j \<le> n + 2 \<and>
          autoScroll_loop height shouldStop maxScrolls (i + 1) (height (measurements t))
            (noChangeCount + 1)
            (t\<lparr>iterations := iterations t + 1, measurements := measurements t + 1,
               scrolls := scrolls t + 1\<rparr>)
          = (NoMorePosts, j, t')"
        using "1.IH"(1) lt go same m False un cap ns by simp
      with lt go same m False show ?thesis
        by (simp add: autoScroll_loop.simps[of _ _ maxScrolls i])
    qed
  next
    case False
    with inwin have "\<not> n \<le> i" by blast
    then have "i + 1 \<le> n + 2" "i + 1 \<le> 0 + n" by simp_all
    moreover have "loop_inv height (i + 1) (height (measurements t)) 0
              (t\<lparr>iterations := iterations t + 1, measurements := measurements t + 1,
                 scrolls := scrolls t + 1\<rparr>)"
      using loop_inv_differ[OF inv] m by simp
    ultimately have "\<exists>j t'. j \<le> n + 2 \<and>
          autoScroll_loop height shouldStop maxScrolls (i + 1) (height (measurements t)) 0
            (t\<lparr>iterations := iterations t + 1, measurements := measurements t + 1,
               scrolls := scrolls t + 1\<rparr>)
          = (NoMorePosts, j, t')"
      using "1.IH"(2) lt go m False un cap ns by simp
    with lt go m False show ?thesis
      by (simp add: autoScroll_loop.simps[of _ _ maxScrolls i])
  qed
qed

text \<open>
  C2, as stated, fails. A page measures 100, 100, 100: three consecutive equal
  measurements. The controller does not stop at the third: it scrolls a third time
  and stops at the fourth measurement. The first 100 differs from the initial
  \<open>previousHeight\<close> 0, so the third measurement is only the second without change.
\<close>

theorem three_equal_counterexample:
  "heights [100, 100, 100] 0 = 100 \<and> heights [100, 100, 100] 1 = 100
   \<and> heights [100, 100, 100] 2 = 100
   \<and> autoScroll (heights [100, 100, 100]) None 100
       = (NoMorePosts, 3, \<lparr>iterations = 4, measurements = 4, scrolls = 3\<rparr>)
   \<and> autoScroll (heights [100, 100, 100]) None 100
       \<noteq> (NoMorePosts, 2, \<lparr>iterations = 3, measurements = 3, scrolls = 2\<rparr>)"
  by (simp add: autoScroll_def stop_now_def heights_def)

text \<open>
  C2, amended. The sizes the controller observes are the initial 0 and then the
  measurements. At the first point of a run where three consecutive measurements (the
  measurements \<open>n\<close>, \<open>n + 1\<close>, \<open>n + 2\<close>) each equal the size observed just before them,
  and provided the cap allows these iterations and the target predicate has not
  stopped the loop, the controller terminates at the third of them, iteration
  \<open>n + 2\<close>: by convergence, after \<open>n + 3\<close> measurements and \<open>n + 2\<close> scrolls, without
  requesting more content after that measurement.
\<close>

theorem autoScroll_converges:
  assumes "unchanged3 height n" and "\<forall>m < n. \<not> unchanged3 height m"
    and "n + 2 < maxScrolls" and "\<forall>k \<le> n + 2. \<not> stop_now shouldStop k"
  shows "autoScroll height shouldStop maxScrolls
           = (NoMorePosts, n + 2, \<lparr>iterations = n + 3, measurements = n + 3, scrolls = n + 2\<rparr>)"
proof -
  from loop_converges[OF loop_inv_start assms(1) assms(3) assms(4)]
  obtain j t' where j: "j \<le> n + 2"
    and run: "autoScroll_loop height shouldStop maxScrolls 0 0 0
                \<lparr>iterations = 0, measurements = 0, scrolls = 0\<rparr>
              = (NoMorePosts, j, t')"
    by auto
  from loop_exit_sound[OF loop_inv_start run]
  have s: "2 \<le> j" "unchanged3 height (j - 2)"
    "t' = \<lparr>iterations = j + 1, measurements = j + 1, scrolls = j\<rparr>"
    by simp_all
  from s(2) assms(2) have "\<not> j - 2 < n" by auto
  with j s(1) have "j = n + 2" by simp
  with run s(3) show ?thesis by (simp add: autoScroll_def)
qed

text \<open>
  A page that measures 5, 6, 7, 7, 7, 7: the measurements 3, 4 and 5 repeat the 7
  before them, and the controller stops at iteration 5. A page that stays at 0, the
  initial value, stops at its third measurement.
\<close>

theorem autoScroll_converges_witness:
  "unchanged3 (heights [5, 6, 7, 7, 7, 7]) 3
   \<and> autoScroll (heights [5, 6, 7, 7, 7, 7]) None 100
       = (NoMorePosts, 5, \<lparr>iterations = 6, measurements = 6, scrolls = 5\<rparr>)
   \<and> autoScroll (heights [0]) None 100
       = (NoMorePosts, 2, \<lparr>iterations = 3, measurements = 3, scrolls = 2\<rparr>)"
proof -
  have a1: "unchanged3 (heights [5, 6, 7, 7, 7, 7]) 3"
    by (simp add: unchanged3_def observed_def heights_def numeral_3_eq_3)
  have a2: "\<forall>m < 3. \<not> unchanged3 (heights [5, 6, 7, 7, 7, 7]) m"
    by (simp add: unchanged3_def observed_def heights_def numeral_3_eq_3 less_Suc_eq)
  have a3: "(3::nat) + 2 < 100" by simp
  have a4: "\<forall>k \<le> 3 + 2. \<not> stop_now None k" by (simp add: stop_now_def)
  have b1: "unchanged3 (heights [0]) 0"
    by (simp add: unchanged3_def observed_def heights_def numeral_3_eq_3)
  have b2: "\<forall>m < 0. \<not> unchanged3 (heights [0]) m" by simp
  have b3: "(0::nat) + 2 < 100" by simp
  have b4: "\<forall>k \<le> 0 + 2. \<not> stop_now None k" by (simp add: stop_now_def)
  from autoScroll_converges[OF a1 a2 a3 a4] autoScroll_converges[OF b1 b2 b3 b4] a1
  show ?thesis by simp
qed

section \<open>The merge with the persisted collection\<close>

text \<open>Two \<open>Map\<close>s with the same keys in the same order and the same lookups are the same.\<close>

lemma alist_ext:
  "map fst xs = map fst ys \<Longrightarrow> (\<And>k. map_of xs k = map_of ys k) \<Longrightarrow>
   distinct (map fst xs) \<Longrightarrow> xs = ys"
proof (induction xs arbitrary: ys)
  case Nil
  then show ?case by simp
next
  case (Cons x xs)
  then obtain y ys' where ys: "ys = y # ys'" by (cases ys) auto
  from Cons.prems(1) ys have k: "fst x = fst y" and ks: "map fst xs = map fst ys'" by auto
  from Cons.prems(2)[of "fst x"] ys k have v: "snd x = snd y" by simp
  have "map_of xs a = map_of ys' a" for a
  proof (cases "a = fst x")
    case True
    with Cons.prems(3) have "a \<notin> fst ` set xs" by auto
    moreover from this ks have "a \<notin> fst ` set ys'" by (metis list.set_map)
    ultimately show ?thesis by (metis map_of_eq_None_iff)
  next
    case False
    with Cons.prems(2)[of a] ys k show ?thesis by simp
  qed
  with Cons.IH[of ys'] ks Cons.prems(3) have "xs = ys'" by simp
  with k v ys show ?case by (simp add: prod_eq_iff)
qed

lemma set_all_Nil: "set_all [] m = m"
  by (simp add: set_all_def)

lemma set_all_Cons: "set_all (p # ps) m = set_all ps (Map_set (id_post p) p m)"
  by (simp add: set_all_def)

lemma set_all_keys: "fst ` set (set_all ps m) = fst ` set m \<union> id_post ` set ps"
  by (induction ps arbitrary: m) (auto simp: set_all_Nil set_all_Cons Map_set_def dom_update)

lemma set_all_distinct: "distinct (map fst m) \<Longrightarrow> distinct (map fst (set_all ps m))"
  by (induction ps arbitrary: m) (auto simp: set_all_Nil set_all_Cons Map_set_def distinct_update)

lemma keyed_update: "keyed m \<Longrightarrow> keyed (AList.update (id_post p) p m)"
  by (induction m) (auto simp: keyed_def)

lemma set_all_keyed: "keyed m \<Longrightarrow> keyed (set_all ps m)"
  by (induction ps arbitrary: m) (auto simp: set_all_Nil set_all_Cons Map_set_def keyed_update)

lemma keyed_ids: "keyed m \<Longrightarrow> map (id_post \<circ> snd) m = map fst m"
  by (induction m) (auto simp: keyed_def)

lemma set_all_same_keys:
  "id_post ` set ps \<subseteq> fst ` set m \<Longrightarrow> map fst (set_all ps m) = map fst m"
proof (induction ps arbitrary: m)
  case Nil
  then show ?case by (simp add: set_all_Nil)
next
  case (Cons p ps)
  have "map fst (AList.update (id_post p) p m) = map fst m"
    using Cons.prems by (simp add: update_keys)
  moreover have "id_post ` set ps \<subseteq> fst ` set (AList.update (id_post p) p m)"
    using Cons.prems by (auto simp: dom_update)
  ultimately show ?case using Cons.IH[of "AList.update (id_post p) p m"]
    by (simp add: set_all_Cons Map_set_def)
qed

text \<open>A lookup after the writes: the last record written under the key, if any.\<close>

lemma set_all_map_of:
  "map_of (set_all ps m) k =
     (case map_of (rev (map (\<lambda>p. (id_post p, p)) ps)) k of
        Some q \<Rightarrow> Some q
      | None \<Rightarrow> map_of m k)"
  by (induction ps arbitrary: m)
    (auto simp: set_all_Nil set_all_Cons Map_set_def update_conv' map_add_def split: option.splits)

lemma set_all_idem:
  assumes "distinct (map fst m)"
  shows "set_all ps (set_all ps m) = set_all ps m"
proof (rule alist_ext)
  show "map fst (set_all ps (set_all ps m)) = map fst (set_all ps m)"
    by (rule set_all_same_keys) (simp add: set_all_keys)
  show "map_of (set_all ps (set_all ps m)) k = map_of (set_all ps m) k" for k
    by (simp add: set_all_map_of split: option.splits)
  show "distinct (map fst (set_all ps (set_all ps m)))"
    by (simp add: set_all_distinct assms)
qed

lemma set_all_new_wins:
  assumes "distinct (map fst m)" "(k, q) \<in> set (set_all ps m)" "k \<in> id_post ` set ps"
  shows "q \<in> set ps"
proof -
  have "distinct (map fst (set_all ps m))" using assms(1) by (rule set_all_distinct)
  with assms(2) have "map_of (set_all ps m) k = Some q" by simp
  moreover from assms(3) have "k \<in> fst ` set (rev (map (\<lambda>p. (id_post p, p)) ps))" by force
  then obtain r where r: "map_of (rev (map (\<lambda>p. (id_post p, p)) ps)) k = Some r"
    by (metis map_of_eq_None_iff not_Some_eq)
  ultimately have "r = q" by (simp add: set_all_map_of)
  moreover from r have "(k, r) \<in> set (rev (map (\<lambda>p. (id_post p, p)) ps))"
    by (rule map_of_SomeD)
  ultimately show ?thesis by auto
qed

text \<open>Writing records with fresh, distinct identifiers appends them in order.\<close>

lemma set_all_append:
  "distinct (map id_post ps) \<Longrightarrow> id_post ` set ps \<inter> fst ` set m = {} \<Longrightarrow>
   set_all ps m = m @ map (\<lambda>p. (id_post p, p)) ps"
proof (induction ps arbitrary: m)
  case Nil
  then show ?case by (simp add: set_all_Nil)
next
  case (Cons p ps)
  from Cons.prems(2) have "id_post p \<notin> fst ` set m" by auto
  then have u: "AList.update (id_post p) p m = m @ [(id_post p, p)]"
    by (induction m) auto
  from Cons.prems have "id_post ` set ps \<inter> fst ` set (m @ [(id_post p, p)]) = {}" by auto
  with Cons.IH[of "m @ [(id_post p, p)]"] Cons.prems(1) u show ?case
    by (simp add: set_all_Cons Map_set_def)
qed

lemma set_all_rebuild:
  assumes "keyed m" "distinct (map fst m)"
  shows "set_all (map snd m) [] = m"
proof -
  from assms(1) have ids: "map (id_post \<circ> snd) m = map fst m" by (rule keyed_ids)
  from assms(2) have "distinct (map id_post (map snd m))" by (simp add: ids)
  then have "set_all (map snd m) [] = [] @ map (\<lambda>p. (id_post p, p)) (map snd m)"
    by (rule set_all_append) simp
  moreover from assms(1) have "map (\<lambda>p. (id_post p, p)) (map snd m) = m"
    by (induction m) (auto simp: keyed_def)
  ultimately show ?thesis by simp
qed

lemma merged_map_facts:
  "keyed (set_all newPosts (set_all existing []))"
  "distinct (map fst (set_all newPosts (set_all existing [])))"
proof -
  have "keyed []" by (simp add: keyed_def)
  then show "keyed (set_all newPosts (set_all existing []))" by (intro set_all_keyed)
  show "distinct (map fst (set_all newPosts (set_all existing [])))"
    by (intro set_all_distinct) simp
qed

lemma merged_posts_ids:
  "id_post ` set (merged_posts file newPosts)
   = id_post ` set (prior file) \<union> id_post ` set newPosts"
proof (cases "file")
  case (Existing existing)
  from keyed_ids[OF merged_map_facts(1)[of newPosts existing]]
  have "id_post ` set (map snd (set_all newPosts (set_all existing [])))
        = fst ` set (set_all newPosts (set_all existing []))"
    by (metis list.set_map map_map)
  then show ?thesis using Existing
    by (simp add: merged_posts_def prior_def Map_values_def set_all_keys)
qed (simp_all add: merged_posts_def prior_def)

lemma merged_posts_new_wins:
  assumes "q \<in> set (merged_posts file newPosts)" "id_post q \<in> id_post ` set newPosts"
  shows "q \<in> set newPosts"
proof (cases "file")
  case (Existing existing)
  let ?m = "set_all newPosts (set_all existing [])"
  from assms(1) Existing obtain k where kq: "(k, q) \<in> set ?m"
    by (auto simp: merged_posts_def Map_values_def)
  with merged_map_facts(1)[of newPosts existing] have "k = id_post q" by (auto simp: keyed_def)
  with kq assms(2) show ?thesis
    using set_all_new_wins[of "set_all existing []" k q newPosts] set_all_distinct[of "[]" existing]
    by simp
qed (use assms in \<open>simp_all add: merged_posts_def\<close>)

lemma merged_posts_distinct:
  "distinct (map id_post (merged_posts (Existing existing) newPosts))"
  by (simp add: merged_posts_def Map_values_def
      keyed_ids[OF merged_map_facts(1)[of newPosts existing]] merged_map_facts(2))

subsection \<open>The records of a run have distinct identifiers\<close>

text \<open>
  The handler only ever appends to the Accumulator, each record under its own
  identifier and only when that identifier is new: what is stored is never updated.
\<close>

lemma Map_set_absent: "\<not> Map_has m k \<Longrightarrow> Map_set k v m = m @ [(k, v)]"
  by (induction m) (auto simp: Map_has_def Map_set_def)

lemma fold_posts_inv:
  "keyed allPosts \<Longrightarrow> distinct (map fst allPosts) \<Longrightarrow>
   keyed (fold_posts ps allPosts) \<and> distinct (map fst (fold_posts ps allPosts))
   \<and> (\<exists>added. fold_posts ps allPosts = allPosts @ added)"
proof (induction ps arbitrary: allPosts)
  case Nil
  then show ?case by simp
next
  case (Cons post rest)
  show ?case
  proof (cases "id_post post \<noteq> [] \<and> truthy (text_post post)
                \<and> \<not> Map_has allPosts (id_post post)")
    case False
    with Cons show ?thesis by auto
  next
    case True
    let ?next = "allPosts @ [(id_post post, post)]"
    from True have s: "Map_set (id_post post) post allPosts = ?next"
      by (simp add: Map_set_absent)
    from True have "id_post post \<notin> fst ` set allPosts"
      by (simp add: Map_has_def map_of_eq_None_iff)
    with Cons.prems have k: "keyed ?next" and d: "distinct (map fst ?next)"
      by (auto simp: keyed_def)
    from Cons.IH[OF k d] obtain added where
      r: "keyed (fold_posts rest ?next)" "distinct (map fst (fold_posts rest ?next))"
      "fold_posts rest ?next = ?next @ added"
      by blast
    show ?thesis
    proof (cases "text_post post")
      case (Str t)
      with True s r show ?thesis by simp
    qed (use True s k d in \<open>simp_all\<close>)
  qed
qed

lemma on_payload_inv:
  "keyed allPosts \<Longrightarrow> distinct (map fst allPosts) \<Longrightarrow>
   keyed (on_payload allPosts data) \<and> distinct (map fst (on_payload allPosts data))
   \<and> (\<exists>added. on_payload allPosts data = allPosts @ added)"
  by (simp add: on_payload_def extractPosts_included fold_posts_inv)

lemma run_inv:
  "keyed (foldl on_payload [] payloads) \<and> distinct (map fst (foldl on_payload [] payloads))"
proof (induction payloads rule: rev_induct)
  case Nil
  show ?case by (simp add: keyed_def)
next
  case (snoc data payloads)
  then show ?case using on_payload_inv[of "foldl on_payload [] payloads" data] by simp
qed

lemma run_records_distinct:
  "distinct (map id_post (newPosts_of postLimit (foldl on_payload [] payloads)))"
proof -
  let ?all = "foldl on_payload [] payloads"
  from run_inv[of payloads] have "distinct (map id_post (Map_values ?all))"
    by (simp add: Map_values_def keyed_ids)
  then have "distinct (map id_post (take n (Map_values ?all)))" for n
    by (simp add: take_map[symmetric] distinct_take del: take_map)
  with \<open>distinct (map id_post (Map_values ?all))\<close> show ?thesis
    by (simp add: newPosts_of_def split: option.splits)
qed

subsection \<open>The merged collection\<close>

text \<open>
  C4. Whatever the run finds at the output path and whatever records it brings, the
  identifiers of the merged collection are exactly those of the prior collection and
  of the new run together; and every merged record whose identifier occurs in the new
  run is a record of the new run. (With a prior collection in place the merged
  collection has one record per identifier, so for an identifier in both inputs its
  one record is the new run's.)
\<close>

theorem merged_posts_union_new_wins:
  "id_post ` set (merged_posts file newPosts)
     = id_post ` set (prior file) \<union> id_post ` set newPosts
   \<and> (\<forall>q \<in> set (merged_posts file newPosts).
         id_post q \<in> id_post ` set newPosts \<longrightarrow> q \<in> set newPosts)
   \<and> distinct (map id_post (merged_posts (Existing existing) newPosts))"
proof (intro conjI ballI impI)
  show "id_post ` set (merged_posts file newPosts)
        = id_post ` set (prior file) \<union> id_post ` set newPosts"
    by (rule merged_posts_ids)
  show "q \<in> set newPosts"
    if "q \<in> set (merged_posts file newPosts)" "id_post q \<in> id_post ` set newPosts" for q
    using that by (rule merged_posts_new_wins)
  show "distinct (map id_post (merged_posts (Existing existing) newPosts))"
    by (rule merged_posts_distinct)
qed

text \<open>
  The scenario of the specification: the first run of the day stored activity
  \<open>a\<close> with 5 likes; the second brings \<open>a\<close> with 9 likes and \<open>b\<close> with none.
\<close>

theorem merged_posts_union_new_wins_witness:
  "merged_posts (Existing [sample_post ''a'' 5]) [sample_post ''a'' 9, sample_post ''b'' 0]
     = [sample_post ''a'' 9, sample_post ''b'' 0]
   \<and> id_post ` set (merged_posts (Existing [sample_post ''a'' 5])
                      [sample_post ''a'' 9, sample_post ''b'' 0]) = {''a'', ''b''}
   \<and> sample_post ''a'' 9 \<in> set [sample_post ''a'' 9, sample_post ''b'' 0]"
proof -
  let ?file = "Existing [sample_post ''a'' 5]"
  let ?new = "[sample_post ''a'' 9, sample_post ''b'' 0]"
  have m: "merged_posts ?file ?new = ?new"
    by (simp add: merged_posts_def set_all_def Map_set_def Map_values_def sample_post_def)
  then have h1: "sample_post ''a'' 9 \<in> set (merged_posts ?file ?new)" by simp
  have h2: "id_post (sample_post ''a'' 9) \<in> id_post ` set ?new" by simp
  note all = merged_posts_union_new_wins[of ?file ?new "[sample_post ''a'' 5]"]
  from all have ids: "id_post ` set (merged_posts ?file ?new)
                      = id_post ` set (prior ?file) \<union> id_post ` set ?new"
    by (rule conjunct1)
  from all have "\<forall>q \<in> set (merged_posts ?file ?new).
                   id_post q \<in> id_post ` set ?new \<longrightarrow> q \<in> set ?new"
    by (rule conjunct2[THEN conjunct1])
  with h1 h2 have new: "sample_post ''a'' 9 \<in> set ?new" by blast
  have "id_post ` set (prior ?file) \<union> id_post ` set ?new = {''a'', ''b''}"
    by (auto simp: prior_def sample_post_def)
  with ids m new show ?thesis by (simp only: simp_thms)
qed

text \<open>
  C5. Merging the new run into the collection that merging it once produced changes
  nothing, for every prior collection and every list of new records. The same holds
  when the first run found no readable file, as long as the new records have distinct
  identifiers, which the records of a run always have (shown above).
\<close>

theorem merged_posts_idempotent:
  "merged_posts (Existing (merged_posts (Existing existing) newPosts)) newPosts
     = merged_posts (Existing existing) newPosts
   \<and> (distinct (map id_post newPosts) \<longrightarrow>
        merged_posts (Existing (merged_posts file newPosts)) newPosts
          = merged_posts file newPosts)"
proof -
  have once: "merged_posts (Existing (merged_posts (Existing e) newPosts)) newPosts
              = merged_posts (Existing e) newPosts" for e
  proof -
    let ?m = "set_all newPosts (set_all e [])"
    have "set_all (map snd ?m) [] = ?m"
      by (rule set_all_rebuild) (rule merged_map_facts)+
    moreover have "set_all newPosts ?m = ?m"
      by (rule set_all_idem) (simp add: set_all_distinct)
    ultimately show ?thesis by (simp add: merged_posts_def Map_values_def)
  qed
  have first: "merged_posts (Existing newPosts) newPosts = newPosts"
    if d: "distinct (map id_post newPosts)"
  proof -
    from d have a: "set_all newPosts [] = map (\<lambda>p. (id_post p, p)) newPosts"
      using set_all_append[of newPosts "[]"] by simp
    have "set_all newPosts (set_all newPosts []) = set_all newPosts []"
      by (rule set_all_idem) simp
    with a show ?thesis by (simp add: merged_posts_def Map_values_def comp_def)
  qed
  show ?thesis
  proof (cases "file")
    case (Existing e)
    with once show ?thesis by simp
  qed (use once first in \<open>simp_all add: merged_posts_def\<close>)
qed

theorem merged_posts_idempotent_witness:
  "distinct (map id_post [sample_post ''a'' 9, sample_post ''b'' 0])
   \<and> merged_posts No_file [sample_post ''a'' 9, sample_post ''b'' 0]
       = [sample_post ''a'' 9, sample_post ''b'' 0]
   \<and> merged_posts (Existing (merged_posts No_file [sample_post ''a'' 9, sample_post ''b'' 0]))
         [sample_post ''a'' 9, sample_post ''b'' 0]
       = [sample_post ''a'' 9, sample_post ''b'' 0]"
proof -
  have d: "distinct (map id_post [sample_post ''a'' 9, sample_post ''b'' 0])"
    by (simp add: sample_post_def)
  have n: "merged_posts No_file [sample_post ''a'' 9, sample_post ''b'' 0]
           = [sample_post ''a'' 9, sample_post ''b'' 0]"
    by (simp add: merged_posts_def)
  from merged_posts_idempotent[of "[]" "[sample_post ''a'' 9, sample_post ''b'' 0]" No_file] d
  have "merged_posts (Existing (merged_posts No_file [sample_post ''a'' 9, sample_post ''b'' 0]))
          [sample_post ''a'' 9, sample_post ''b'' 0]
        = merged_posts No_file [sample_post ''a'' 9, sample_post ''b'' 0]"
    by blast
  with d n show ?thesis by simp
qed

section \<open>The Credential Store\<close>

text \<open>A record that \<open>saveCredentials\<close> wrote is loaded back as it is, fully populated.\<close>

lemma saved_record_loads:
  "loadCredentials (File_json (saved_json creds)) = Inr (saved_json creds)
   \<and> fully_populated (saved_json creds)"
  by (simp add: loadCredentials_def saved_json_def fully_populated_def is_string_def
      is_number_def)

text \<open>
  C9, as stated, fails. The file holds the JSON object with the single field
  \<open>accessToken\<close>. \<open>loadCredentials\<close> returns that object: not "none", and not a fully
  populated record.
\<close>

theorem loadCredentials_partial_counterexample:
  "loadCredentials (File_json partial_record) = Inr partial_record
   \<and> partial_record \<noteq> Null
   \<and> \<not> fully_populated partial_record"
  by (simp add: loadCredentials_def partial_record_def fully_populated_def is_string_def)

text \<open>
  C9, amended. For every state of the credentials file \<open>loadCredentials\<close> returns a value
  and raises nothing. It returns "none" (\<open>null\<close>) when the file is missing and when it
  cannot be read or parsed; when the file holds JSON it returns the parsed content as
  it is, without checking that the content is a fully populated Credential Record.
\<close>

theorem loadCredentials_returns_content:
  "(\<exists>v. loadCredentials file = Inr v)
   \<and> loadCredentials File_missing = Inr Null
   \<and> loadCredentials File_unparseable = Inr Null
   \<and> loadCredentials (File_json content) = Inr content"
  by (cases "file") (simp_all add: loadCredentials_def)

section \<open>The Token Authority\<close>

lemma refresh_counters:
  "refreshes (snd (refreshAccessToken creds w)) = refreshes w + 1
   \<and> calls (snd (refreshAccessToken creds w)) = calls w"
  by (simp add: refreshAccessToken_def Let_def split: token_reply.splits)

lemma refresh_no_token:
  "refreshToken creds = [] \<Longrightarrow>
   refreshAccessToken creds w = (Inl No_refresh_token, w\<lparr>refreshes := refreshes w + 1\<rparr>)"
  by (simp add: refreshAccessToken_def)

lemma refresh_success:
  assumes "refreshToken creds \<noteq> []" "token_endpoint w (token_requests w) = Body_json tk"
    "access_token tk \<noteq> []"
  shows "\<exists>creds' w'. refreshAccessToken creds w = (Inr creds', w') \<and> stored w' = Some creds'"
  using assms by (simp add: refreshAccessToken_def Let_def)

lemma getValid_counters:
  "calls (snd (getValidCredentials w)) = calls w
   \<and> refreshes (snd (getValidCredentials w)) \<le> refreshes w + 1"
  by (simp add: getValidCredentials_def Let_def refresh_counters split: option.splits)

text \<open>
  C6. With no record stored \<open>getValidCredentials\<close> fails and does nothing else. With a
  record stored, it enters \<open>refreshAccessToken\<close> (once, and returns what that returns)
  when the record's expiry is less than the current time in seconds plus 86400, and
  otherwise it returns the stored record and leaves the world as it was: no refresh.
\<close>

theorem getValidCredentials_refresh_iff:
  "(stored w = None \<longrightarrow> getValidCredentials w = (Inl No_credentials_found, w))
   \<and> (stored w = Some creds \<longrightarrow>
        (if expiresAt creds < now_ms w div 1000 + 86400
         then getValidCredentials w = refreshAccessToken creds w
              \<and> refreshes (snd (getValidCredentials w)) = refreshes w + 1
         else getValidCredentials w = (Inr creds, w)))"
  by (simp add: getValidCredentials_def Let_def refresh_counters)

text \<open>
  At time 0: a record expiring at second 86400 is returned unchanged, a record expiring
  at second 86399 is refreshed, and an empty store fails.
\<close>

theorem getValidCredentials_refresh_iff_witness:
  "getValidCredentials (sample_world (sample_creds ''r'' 86400))
     = (Inr (sample_creds ''r'' 86400), sample_world (sample_creds ''r'' 86400))
   \<and> refreshes (snd (getValidCredentials (sample_world (sample_creds ''r'' 86399)))) = 1
   \<and> fst (getValidCredentials (sample_world (sample_creds ''r'' 86399)))
       = Inr ((sample_creds ''r'' 86399)\<lparr>accessToken := ''new'', expiresAt := 3600\<rparr>)
   \<and> fst (getValidCredentials ((sample_world (sample_creds ''r'' 0))\<lparr>stored := None\<rparr>))
       = Inl No_credentials_found"
proof -
  let ?far = "sample_world (sample_creds ''r'' 86400)"
  let ?near = "sample_world (sample_creds ''r'' 86399)"
  let ?none = "(sample_world (sample_creds ''r'' 0))\<lparr>stored := None\<rparr>"
  have f1: "stored ?far = Some (sample_creds ''r'' 86400)" by (simp add: sample_world_def)
  have f2: "\<not> expiresAt (sample_creds ''r'' 86400) < now_ms ?far div 1000 + 86400"
    by (simp add: sample_world_def sample_creds_def)
  have n1: "stored ?near = Some (sample_creds ''r'' 86399)" by (simp add: sample_world_def)
  have n2: "expiresAt (sample_creds ''r'' 86399) < now_ms ?near div 1000 + 86400"
    by (simp add: sample_world_def sample_creds_def)
  have n3: "refreshes ?near = 0" by (simp add: sample_world_def)
  have n4: "fst (refreshAccessToken (sample_creds ''r'' 86399) ?near)
            = Inr ((sample_creds ''r'' 86399)\<lparr>accessToken := ''new'', expiresAt := 3600\<rparr>)"
    by (simp add: refreshAccessToken_def sample_world_def sample_creds_def endpoint_ok_def Let_def)
  have e1: "stored ?none = None" by simp
  from getValidCredentials_refresh_iff[of ?far "sample_creds ''r'' 86400",
      THEN conjunct2, THEN mp, OF f1]
  have a: "getValidCredentials ?far = (Inr (sample_creds ''r'' 86400), ?far)"
    unfolding if_not_P[OF f2] .
  from getValidCredentials_refresh_iff[of ?near "sample_creds ''r'' 86399",
      THEN conjunct2, THEN mp, OF n1]
  have bc: "getValidCredentials ?near = refreshAccessToken (sample_creds ''r'' 86399) ?near
            \<and> refreshes (snd (getValidCredentials ?near)) = refreshes ?near + 1"
    unfolding if_P[OF n2] .
  from getValidCredentials_refresh_iff[of ?none "sample_creds ''r'' 0",
      THEN conjunct1, THEN mp, OF e1]
  have d: "getValidCredentials ?none = (Inl No_credentials_found, ?none)" .
  from bc[THEN conjunct2] n3 have c: "refreshes (snd (getValidCredentials ?near)) = 1" by simp
  from bc[THEN conjunct1] n4 have b: "fst (getValidCredentials ?near)
            = Inr ((sample_creds ''r'' 86399)\<lparr>accessToken := ''new'', expiresAt := 3600\<rparr>)"
    by simp
  from a b c d show ?thesis by simp
qed

section \<open>The Resilient Request Executor\<close>

lemma withRetry_calls:
  "calls (snd (withRetry fn onSuccess w)) \<le> calls w + 2"
proof -
  obtain r w1 where g: "getValidCredentials w = (r, w1)"
    by (cases "getValidCredentials w") auto
  with getValid_counters[of w] have c1: "calls w1 = calls w" by simp
  show ?thesis
  proof (cases r)
    case (Inl e)
    with g c1 show ?thesis by (simp add: withRetry_def)
  next
    case (Inr creds)
    show ?thesis
    proof (cases "fn 0 creds")
      case Rejected
      with g Inr c1 show ?thesis by (simp add: withRetry_def)
    next
      case (Responded resp)
      show ?thesis
      proof (cases "status resp = 401")
        case False
        with g Inr c1 Responded show ?thesis by (simp add: withRetry_def)
      next
        case True
        obtain r2 w3 where rf: "refreshAccessToken creds (w1\<lparr>calls := calls w1 + 1\<rparr>) = (r2, w3)"
          by (cases "refreshAccessToken creds (w1\<lparr>calls := calls w1 + 1\<rparr>)") auto
        with refresh_counters[of creds "w1\<lparr>calls := calls w1 + 1\<rparr>"]
        have c3: "calls w3 = calls w1 + 1" by simp
        from g Inr c1 Responded True rf c3 show ?thesis
          by (cases r2; cases "fn 1 (projr r2)") (simp_all add: withRetry_def Let_def)
      qed
    qed
  qed
qed

text \<open>
  C3, as stated, fails. The call-function answers 401 and then 200, and the stored
  record expires within a day (at second 1000, the time being 0). Get-valid refreshes
  before the first call and the 401 forces a second refresh: two calls, the success
  result, and two refreshes, not one.
\<close>

theorem withRetry_two_refreshes_counterexample:
  "fst (withRetry fn_401_then_200 on_ok (sample_world (sample_creds ''r'' 1000)))
     = Inr (on_ok \<lparr>status = 200, body = ''b'', headers = []\<rparr>)
   \<and> calls (snd (withRetry fn_401_then_200 on_ok (sample_world (sample_creds ''r'' 1000)))) = 2
   \<and> refreshes (snd (withRetry fn_401_then_200 on_ok (sample_world (sample_creds ''r'' 1000)))) = 2
   \<and> (2::nat) \<noteq> 1"
  by (simp add: withRetry_def getValidCredentials_def refreshAccessToken_def sample_world_def
      sample_creds_def endpoint_ok_def fn_401_then_200_def conclude_def on_ok_def Let_def)

text \<open>
  C3, amended. A credential is stored whose expiry is at least a day away, it has a
  refresh token, and the token endpoint answers the refresh with an access token. Then
  for every call-function whose first invocation returns 401 and whose second returns
  200, \<open>withRetry\<close> performs exactly two calls and exactly one refresh and returns the
  success interpreter applied to the second response, which was obtained with the
  refreshed credential. And for every call-function, interpreter and world, \<open>withRetry\<close>
  performs at most two calls.
\<close>

theorem withRetry_401_then_200:
  assumes st: "stored w = Some creds"
    and far: "\<not> expiresAt creds < now_ms w div 1000 + 86400"
    and rt: "refreshToken creds \<noteq> []"
    and ep: "token_endpoint w (token_requests w) = Body_json tk"
    and at: "access_token tk \<noteq> []"
    and first: "\<And>c. \<exists>r. fn 0 c = Responded r \<and> status r = 401"
    and second: "\<And>c. \<exists>r. fn 1 c = Responded r \<and> status r = 200"
  shows "(\<exists>creds' r2 w'. withRetry fn onSuccess w = (Inr (onSuccess r2), w')
            \<and> fn 1 creds' = Responded r2 \<and> stored w' = Some creds'
            \<and> calls w' = calls w + 2 \<and> refreshes w' = refreshes w + 1)
         \<and> calls (snd (withRetry fn' onSuccess' w0)) \<le> calls w0 + 2"
proof -
  from st far have g: "getValidCredentials w = (Inr creds, w)"
    by (simp add: getValidCredentials_def)
  from first obtain r1 where r1: "fn 0 creds = Responded r1" "status r1 = 401" by blast
  let ?w2 = "w\<lparr>calls := calls w + 1\<rparr>"
  from ep have "token_endpoint ?w2 (token_requests ?w2) = Body_json tk" by simp
  from refresh_success[OF rt this at] obtain creds' w3
    where rf: "refreshAccessToken creds ?w2 = (Inr creds', w3)" and st3: "stored w3 = Some creds'"
    by blast
  from refresh_counters[of creds ?w2] rf
  have c3: "calls w3 = calls w + 1" "refreshes w3 = refreshes w + 1" by simp_all
  from second obtain r2 where r2: "fn 1 creds' = Responded r2" "status r2 = 200" by blast
  have "withRetry fn onSuccess w = (Inr (onSuccess r2), w3\<lparr>calls := calls w3 + 1\<rparr>)"
    using rf r2 by (simp add: withRetry_def g r1 conclude_def Let_def)
  with r2 st3 c3 have "\<exists>creds' r2 w'. withRetry fn onSuccess w = (Inr (onSuccess r2), w')
            \<and> fn 1 creds' = Responded r2 \<and> stored w' = Some creds'
            \<and> calls w' = calls w + 2 \<and> refreshes w' = refreshes w + 1"
    by (intro exI[of _ creds'] exI[of _ r2] exI[of _ "w3\<lparr>calls := calls w3 + 1\<rparr>"]) simp
  then show ?thesis using withRetry_calls by blast
qed

text \<open>The same call-function with a record that expires at second 86400, the time being 0.\<close>

theorem withRetry_401_then_200_witness:
  "fst (withRetry fn_401_then_200 on_ok (sample_world (sample_creds ''r'' 86400)))
     = Inr (on_ok \<lparr>status = 200, body = ''b'', headers = []\<rparr>)
   \<and> calls (snd (withRetry fn_401_then_200 on_ok (sample_world (sample_creds ''r'' 86400)))) = 2
   \<and> refreshes (snd (withRetry fn_401_then_200 on_ok (sample_world (sample_creds ''r'' 86400)))) = 1"
proof -
  let ?w = "sample_world (sample_creds ''r'' 86400)"
  have st: "stored ?w = Some (sample_creds ''r'' 86400)" by (simp add: sample_world_def)
  have far: "\<not> expiresAt (sample_creds ''r'' 86400) < now_ms ?w div 1000 + 86400"
    by (simp add: sample_world_def sample_creds_def)
  have rt: "refreshToken (sample_creds ''r'' 86400) \<noteq> []" by (simp add: sample_creds_def)
  have ep: "token_endpoint ?w (token_requests ?w)
            = Body_json \<lparr>access_token = ''new'', refresh_token = '''', expires_in = 3600\<rparr>"
    by (simp add: sample_world_def endpoint_ok_def)
  have at: "access_token \<lparr>access_token = ''new'', refresh_token = '''', expires_in = 3600\<rparr> \<noteq> []"
    by simp
  have first: "\<exists>r. fn_401_then_200 0 c = Responded r \<and> status r = 401" for c
    by (simp add: fn_401_then_200_def)
  have second: "\<exists>r. fn_401_then_200 1 c = Responded r \<and> status r = 200" for c
    by (simp add: fn_401_then_200_def)
  from withRetry_401_then_200[where fn = fn_401_then_200 and onSuccess = on_ok,
      OF st far rt ep at first second]
  obtain creds' r2 w' where run: "withRetry fn_401_then_200 on_ok ?w = (Inr (on_ok r2), w')"
    and r2: "fn_401_then_200 1 creds' = Responded r2"
    and cnt: "calls w' = calls ?w + 2" "refreshes w' = refreshes ?w + 1"
    by blast
  from r2 have "r2 = \<lparr>status = 200, body = ''b'', headers = []\<rparr>"
    by (simp add: fn_401_then_200_def)
  with run cnt show ?thesis by (simp add: sample_world_def)
qed

text \<open>
  C10. The stored credential has an empty refresh token and the call-function's first
  invocation returns 401. Then \<open>withRetry\<close> returns no result, success or failure: the
  exception "no refresh token" of \<open>refreshAccessToken\<close> leaves it, and at most one call
  has been made, never a second. When the credential is not within a day of its expiry
  the exception comes from the refresh forced by the 401: exactly one call and one
  refresh have happened and the store is untouched. (Otherwise the refresh of Get-valid
  raises it, before any call.)
\<close>

theorem withRetry_no_refresh_token:
  assumes st: "stored w = Some creds" and rt: "refreshToken creds = []"
    and first: "\<And>c. \<exists>r. fn 0 c = Responded r \<and> status r = 401"
  shows "fst (withRetry fn onSuccess w) = Inl (Auth_error No_refresh_token)
         \<and> calls (snd (withRetry fn onSuccess w)) \<le> calls w + 1
         \<and> (\<not> expiresAt creds < now_ms w div 1000 + 86400 \<longrightarrow>
               withRetry fn onSuccess w
                 = (Inl (Auth_error No_refresh_token),
                    w\<lparr>calls := calls w + 1, refreshes := refreshes w + 1\<rparr>))"
proof (cases "expiresAt creds < now_ms w div 1000 + 86400")
  case True
  with st rt
  have "getValidCredentials w = (Inl No_refresh_token, w\<lparr>refreshes := refreshes w + 1\<rparr>)"
    by (simp add: getValidCredentials_def refresh_no_token)
  with True show ?thesis by (simp add: withRetry_def)
next
  case False
  with st have g: "getValidCredentials w = (Inr creds, w)"
    by (simp add: getValidCredentials_def)
  from first obtain r1 where r1: "fn 0 creds = Responded r1" "status r1 = 401" by blast
  have "withRetry fn onSuccess w
          = (Inl (Auth_error No_refresh_token),
             w\<lparr>calls := calls w + 1, refreshes := refreshes w + 1\<rparr>)"
    by (simp add: withRetry_def g r1 refresh_no_token[OF rt] Let_def)
  then show ?thesis by simp
qed

theorem withRetry_no_refresh_token_witness:
  "withRetry fn_401_then_200 on_ok (sample_world (sample_creds '''' 86400))
     = (Inl (Auth_error No_refresh_token),
        (sample_world (sample_creds '''' 86400))\<lparr>calls := 1, refreshes := 1\<rparr>)"
proof -
  let ?w = "sample_world (sample_creds '''' 86400)"
  have st: "stored ?w = Some (sample_creds '''' 86400)" by (simp add: sample_world_def)
  have rt: "refreshToken (sample_creds '''' 86400) = []" by (simp add: sample_creds_def)
  have first: "\<exists>r. fn_401_then_200 0 c = Responded r \<and> status r = 401" for c
    by (simp add: fn_401_then_200_def)
  have far: "\<not> expiresAt (sample_creds '''' 86400) < now_ms ?w div 1000 + 86400"
    by (simp add: sample_world_def sample_creds_def)
  from withRetry_no_refresh_token[where fn = fn_401_then_200 and onSuccess = on_ok,
      OF st rt first] far
  have "withRetry fn_401_then_200 on_ok ?w
          = (Inl (Auth_error No_refresh_token), ?w\<lparr>calls := calls ?w + 1, refreshes := refreshes ?w + 1\<rparr>)"
    by blast
  then show ?thesis by (simp add: sample_world_def)
qed

end
